theory Spec2Isabelle
  imports Main "HOL-Library.Sublist"
begin

section \<open>The flag resolver of qamel's cgo generator (generator/gen-cgo.go)\<close>

text \<open>
  The model covers the text transformation inside \<open>createCgoFlags\<close>: the loop that parses
  the lines of the makefile into \<open>mapCompiler\<close> (\<open>ParseSymbols\<close>), the loop that converts the
  variables in the compiler flags (\<open>ResolveReferences\<close>), and the assembly of the \<open>#cgo\<close>
  directives (\<open>RenderFlags\<close>). Writing the project file, running qmake, reading the makefile
  with \<open>bufio.Scanner\<close> and removing the generated files are input and output around it:
  the model starts from the lines that \<open>scanner.Text()\<close> returns.

  A Go string is a sequence of bytes, here a \<open>string\<close> (a list of 8-bit \<open>char\<close>s). The
  two patterns of the program test single bytes of the ASCII range next to runs of \<open>\S\<close> or
  \<open>.\<close>, so matching byte by byte gives the matches that Go finds rune by rune.
  A Go \<open>map[string]string\<close> is a partial map; reading a missing key gives the empty string.
\<close>

type_synonym table = "string \<rightharpoonup> string"

definition lookup :: "table \<Rightarrow> string \<Rightarrow> string" where
  \<comment> \<open>\<open>mapCompiler[k]\<close>: the zero value \<open>""\<close> for a missing key\<close>
  "lookup m k = (case m k of None \<Rightarrow> [] | Some v \<Rightarrow> v)"

subsection \<open>Character classes of Go's regexp syntax\<close>

definition rx_space :: "char \<Rightarrow> bool" where
  \<comment> \<open>\<open>\s\<close> is \<open>[\t\n\f\r ]\<close>\<close>
  "rx_space c \<longleftrightarrow> c = CHR 0x09 \<or> c = CHR 0x0A \<or> c = CHR 0x0C \<or> c = CHR 0x0D \<or> c = CHR 0x20"

definition rx_nonspace :: "char \<Rightarrow> bool" where
  \<comment> \<open>\<open>\S\<close>\<close>
  "rx_nonspace c \<longleftrightarrow> \<not> rx_space c"

definition rx_dot :: "char \<Rightarrow> bool" where
  \<comment> \<open>\<open>.\<close> without the \<open>s\<close> flag: any character but the line feed\<close>
  "rx_dot c \<longleftrightarrow> c \<noteq> CHR 0x0A"

subsection \<open>Greedy repetition with backtracking\<close>

text \<open>
  Go's regexp package returns the match a backtracking engine finds first (leftmost-first).
  A greedy repetition of a character class tries the longest run first and then gives
  characters back one at a time. \<open>rx_star P s\<close> lists the ways \<open>P*\<close> can split \<open>s\<close> into
  the part it consumes and the rest, in that order; \<open>rx_plus\<close> is the same for \<open>P+\<close>.
  \<open>first_match\<close> takes the first alternative for which the rest of the pattern matches.
\<close>

fun rx_star :: "(char \<Rightarrow> bool) \<Rightarrow> string \<Rightarrow> (string \<times> string) list" where
  "rx_star P [] = [([], [])]"
| "rx_star P (c # cs) =
     (if P c then map (\<lambda>(a, b). (c # a, b)) (rx_star P cs) @ [([], c # cs)]
      else [([], c # cs)])"

definition rx_plus :: "(char \<Rightarrow> bool) \<Rightarrow> string \<Rightarrow> (string \<times> string) list" where
  "rx_plus P s = filter (\<lambda>(a, b). a \<noteq> []) (rx_star P s)"

fun first_match :: "('a \<Rightarrow> 'b option) \<Rightarrow> 'a list \<Rightarrow> 'b option" where
  "first_match f [] = None"
| "first_match f (x # xs) = (case f x of Some y \<Rightarrow> Some y | None \<Rightarrow> first_match f xs)"

subsection \<open>\<open>rxMakefile\<close>\<close>

text \<open>
  \<^verbatim>\<open>rxMakefile = regexp.MustCompile(`^(\S+)\s*=\s*(.+)$`)\<close>

  Without flags \<open>^\<close> and \<open>$\<close> match at the two ends of the text only. The result is the
  pair of the two capture groups.
\<close>

definition rxMakefile :: "string \<Rightarrow> (string \<times> string) option" where
  "rxMakefile text =
     first_match (\<lambda>(key, r1).
       first_match (\<lambda>(sp1, r2).
         (case r2 of
            [] \<Rightarrow> None
          | c # r3 \<Rightarrow>
              if c = CHR ''='' then
                first_match (\<lambda>(sp2, r4).
                  first_match (\<lambda>(val, r5). if r5 = [] then Some (key, val) else None)
                    (rx_plus rx_dot r4))
                  (rx_star rx_space r3)
              else None))
         (rx_star rx_space r1))
       (rx_plus rx_nonspace text)"

definition FindStringSubmatch :: "string \<Rightarrow> string list" where
  \<comment> \<open>\<open>rxMakefile.FindStringSubmatch(text)\<close>: \<open>nil\<close>, or the whole match and the two groups\<close>
  "FindStringSubmatch text =
     (case rxMakefile text of None \<Rightarrow> [] | Some (key, val) \<Rightarrow> [text, key, val])"

subsection \<open>\<open>rxCompilerVar\<close>\<close>

text \<open>
  \<^verbatim>\<open>rxCompilerVar = regexp.MustCompile(`\$\((\S+)\)`)\<close>

  \<open>rxCompilerVar_at s\<close> is the match that starts at the first byte of \<open>s\<close>, if there is
  one: the matched text, the capture group, and what follows the match.
\<close>

definition rxCompilerVar_at :: "string \<Rightarrow> (string \<times> string \<times> string) option" where
  "rxCompilerVar_at s =
     (case s of
        c1 # c2 # r1 \<Rightarrow>
          if c1 = CHR ''$'' \<and> c2 = CHR ''('' then
            first_match (\<lambda>(name, r2).
              (case r2 of
                 [] \<Rightarrow> None
               | c3 # r3 \<Rightarrow>
                   if c3 = CHR '')'' then Some (CHR ''$'' # CHR ''('' # name @ [CHR '')''], name, r3)
                   else None))
              (rx_plus rx_nonspace r1)
          else None
      | _ \<Rightarrow> None)"

lemma first_match_SomeD:
  "first_match f xs = Some y \<Longrightarrow> \<exists>x \<in> set xs. f x = Some y"
  by (induction xs) (auto split: option.splits)

lemma first_match_None: "(\<And>x. x \<in> set xs \<Longrightarrow> f x = None) \<Longrightarrow> first_match f xs = None"
  by (induction xs) auto

lemma rx_star_split: "(a, b) \<in> set (rx_star P s) \<Longrightarrow> s = a @ b \<and> (\<forall>c \<in> set a. P c)"
  by (induction s arbitrary: a b) (auto split: if_splits)

lemma rx_plus_split:
  "(a, b) \<in> set (rx_plus P s) \<Longrightarrow> s = a @ b \<and> a \<noteq> [] \<and> (\<forall>c \<in> set a. P c)"
  using rx_star_split [of a b P s] by (auto simp: rx_plus_def)

lemma rxCompilerVar_at_shape:
  assumes "rxCompilerVar_at s = Some (whole, name, rest)"
  shows "s = whole @ rest \<and> whole = CHR ''$'' # CHR ''('' # name @ [CHR '')'']
         \<and> name \<noteq> [] \<and> (\<forall>c \<in> set name. rx_nonspace c)"
proof -
  from assms obtain r1 where s: "s = CHR ''$'' # CHR ''('' # r1"
    and fm: "first_match (\<lambda>(name, r2).
              (case r2 of
                 [] \<Rightarrow> None
               | c3 # r3 \<Rightarrow>
                   if c3 = CHR '')'' then Some (CHR ''$'' # CHR ''('' # name @ [CHR '')''], name, r3)
                   else None))
              (rx_plus rx_nonspace r1) = Some (whole, name, rest)"
    by (auto simp: rxCompilerVar_at_def split: list.splits if_splits)
  from first_match_SomeD [OF fm] obtain n r2 where
    mem: "(n, r2) \<in> set (rx_plus rx_nonspace r1)"
    and r: "(case r2 of [] \<Rightarrow> None
            | c3 # r3 \<Rightarrow> if c3 = CHR '')'' then Some (CHR ''$'' # CHR ''('' # n @ [CHR '')''], n, r3)
                   else None) = Some (whole, name, rest)"
    by auto
  from r have "r2 = CHR '')'' # rest" "n = name" "whole = CHR ''$'' # CHR ''('' # name @ [CHR '')'']"
    by (auto split: list.splits if_splits)
  with rx_plus_split [OF mem] s show ?thesis by auto
qed

lemma rxCompilerVar_at_shorter:
  "rxCompilerVar_at s = Some (whole, name, rest) \<Longrightarrow> length rest < length s"
  using rxCompilerVar_at_shape [of s whole name rest] by auto

text \<open>
  \<open>rxCompilerVar.FindAllString(flagValue, -1)\<close>: the successive non-overlapping matches,
  each the leftmost one after the end of the match before it.
\<close>

function FindAllString :: "string \<Rightarrow> string list" where
  "FindAllString [] = []"
| "FindAllString (c # cs) =
     (case rxCompilerVar_at (c # cs) of
        Some (whole, name, rest) \<Rightarrow> whole # FindAllString rest
      | None \<Rightarrow> FindAllString cs)"
  by pat_completeness auto
termination
  by (relation "measure length") (auto dest: rxCompilerVar_at_shorter)

text \<open>
  \<open>rxCompilerVar.ReplaceAllString(variable, "$1")\<close>: every match is replaced by its capture
  group, the text between the matches is copied.
\<close>

function ReplaceAllString :: "string \<Rightarrow> string" where
  "ReplaceAllString [] = []"
| "ReplaceAllString (c # cs) =
     (case rxCompilerVar_at (c # cs) of
        Some (whole, name, rest) \<Rightarrow> name @ ReplaceAllString rest
      | None \<Rightarrow> c # ReplaceAllString cs)"
  by pat_completeness auto
termination
  by (relation "measure length") (auto dest: rxCompilerVar_at_shorter)

subsection \<open>The functions of package \<open>strings\<close>\<close>

text \<open>
  \<open>strings.Replace(s, old, new, -1)\<close> replaces the non-overlapping occurrences of \<open>old\<close>,
  found from left to right. Both calls of the program pass a non-empty \<open>old\<close> (a match of
  \<open>rxCompilerVar\<close>, and a constant); for an empty \<open>old\<close>, where Go inserts \<open>new\<close> around
  every UTF-8 sequence, the model returns \<open>s\<close>.
\<close>

function Replace :: "string \<Rightarrow> string \<Rightarrow> string \<Rightarrow> string" where
  "Replace [] old new = []"
| "Replace (c # cs) old new =
     (if old \<noteq> [] \<and> prefix old (c # cs)
      then new @ Replace (drop (length old) (c # cs)) old new
      else c # Replace cs old new)"
  by pat_completeness auto
termination
  by (relation "measure (\<lambda>(s, old, new). length s)") (auto simp: neq_Nil_conv)

text \<open>
  \<open>strings.TrimSpace\<close> removes the leading and the trailing white space, as
  \<open>unicode.IsSpace\<close> defines it, decoding UTF-8 from either end. \<open>space_runes\<close> lists the
  UTF-8 encodings of the white-space code points: U+0009 to U+000D, U+0020, U+0085, U+00A0,
  U+1680, U+2000 to U+200A, U+2028, U+2029, U+202F, U+205F and U+3000. A string starts (ends)
  with a white-space rune exactly when one of these encodings is a prefix (suffix) of it.
\<close>

definition space_runes :: "string list" where
  "space_runes =
    [[CHR 0x09], [CHR 0x0A], [CHR 0x0B], [CHR 0x0C], [CHR 0x0D], [CHR 0x20],
     [CHR 0xC2, CHR 0x85], [CHR 0xC2, CHR 0xA0],
     [CHR 0xE1, CHR 0x9A, CHR 0x80],
     [CHR 0xE2, CHR 0x80, CHR 0x80], [CHR 0xE2, CHR 0x80, CHR 0x81],
     [CHR 0xE2, CHR 0x80, CHR 0x82], [CHR 0xE2, CHR 0x80, CHR 0x83],
     [CHR 0xE2, CHR 0x80, CHR 0x84], [CHR 0xE2, CHR 0x80, CHR 0x85],
     [CHR 0xE2, CHR 0x80, CHR 0x86], [CHR 0xE2, CHR 0x80, CHR 0x87],
     [CHR 0xE2, CHR 0x80, CHR 0x88], [CHR 0xE2, CHR 0x80, CHR 0x89],
     [CHR 0xE2, CHR 0x80, CHR 0x8A],
     [CHR 0xE2, CHR 0x80, CHR 0xA8], [CHR 0xE2, CHR 0x80, CHR 0xA9],
     [CHR 0xE2, CHR 0x80, CHR 0xAF], [CHR 0xE2, CHR 0x81, CHR 0x9F],
     [CHR 0xE3, CHR 0x80, CHR 0x80]]"

fun strip_rune :: "string list \<Rightarrow> string \<Rightarrow> string option" where
  \<comment> \<open>the rest of the string after the first of the encodings it starts with\<close>
  "strip_rune [] s = None"
| "strip_rune (e # es) s =
     (if e \<noteq> [] \<and> prefix e s then Some (drop (length e) s) else strip_rune es s)"

lemma strip_rune_shorter: "strip_rune es s = Some r \<Longrightarrow> length r < length s"
  by (induction es) (auto simp: prefix_def split: if_splits)

function trim_left :: "string list \<Rightarrow> string \<Rightarrow> string" where
  "trim_left es [] = []"
| "trim_left es (c # cs) =
     (case strip_rune es (c # cs) of None \<Rightarrow> c # cs | Some r \<Rightarrow> trim_left es r)"
  by pat_completeness auto
termination
  by (relation "measure (\<lambda>(es, s). length s)") (auto dest: strip_rune_shorter)

definition TrimSpace :: "string \<Rightarrow> string" where
  \<comment> \<open>the trailing runes are those at the start of the reversed string, reversed\<close>
  "TrimSpace s = rev (trim_left (map rev space_runes) (rev (trim_left space_runes s)))"

subsection \<open>Parsing the makefile (lines 139 to 147)\<close>

definition parse_line :: "string \<Rightarrow> table \<Rightarrow> table" where
  "parse_line text mapCompiler =
     (let parts = FindStringSubmatch text in
      if length parts \<noteq> 3 then mapCompiler
      else mapCompiler(parts ! 1 \<mapsto> parts ! 2))"

definition ParseSymbols :: "string list \<Rightarrow> table" where
  "ParseSymbols lines = fold parse_line lines Map.empty"

subsection \<open>Converting the variables in the compiler flags (lines 154 to 166)\<close>

definition substitute :: "table \<Rightarrow> string \<Rightarrow> string" where
  \<comment> \<open>the inner loop over \<open>variables\<close>, which is computed once, from the value as stored\<close>
  "substitute mapCompiler flagValue =
     fold (\<lambda>variable fv. Replace fv variable (lookup mapCompiler (ReplaceAllString variable)))
       (FindAllString flagValue) flagValue"

definition resolve_value :: "table \<Rightarrow> string \<Rightarrow> string" where
  "resolve_value mapCompiler flagValue =
     TrimSpace (Replace (substitute mapCompiler flagValue) '' -Wa,-mbig-obj '' '' '')"

definition resolve_key :: "string \<Rightarrow> table \<Rightarrow> table" where
  \<comment> \<open>one iteration of the outer loop; \<open>range\<close> produces keys of the map only\<close>
  "resolve_key flagKey mapCompiler =
     (case mapCompiler flagKey of
        None \<Rightarrow> mapCompiler
      | Some flagValue \<Rightarrow> mapCompiler(flagKey \<mapsto> resolve_value mapCompiler flagValue))"

text \<open>
  \<open>for flagKey, flagValue := range mapCompiler\<close> visits every key of the map once, in an
  order that Go leaves unspecified (and randomises). The loop assigns to existing keys only,
  so no key appears or disappears during the iteration. The order is a parameter of the
  model: \<open>iteration_order ks m\<close> says that \<open>ks\<close> is one of the orders in which \<open>range\<close> may
  produce the keys of \<open>m\<close>.
\<close>

definition iteration_order :: "string list \<Rightarrow> table \<Rightarrow> bool" where
  "iteration_order ks m \<longleftrightarrow> distinct ks \<and> set ks = dom m"

definition ResolveReferences :: "string list \<Rightarrow> table \<Rightarrow> table" where
  "ResolveReferences ks mapCompiler = fold resolve_key ks mapCompiler"

subsection \<open>Fetching the flags for cgo (lines 169 to 175)\<close>

definition RenderFlags :: "table \<Rightarrow> string" where
  "RenderFlags m =
     ''#cgo CFLAGS: '' @ lookup m ''CFLAGS'' @ [CHR 0x0A] @
     ''#cgo CXXFLAGS: '' @ lookup m ''CXXFLAGS'' @ [CHR 0x0A] @
     ''#cgo CXXFLAGS: '' @ lookup m ''INCPATH'' @ [CHR 0x0A] @
     ''#cgo LDFLAGS: '' @ lookup m ''LFLAGS'' @ [CHR 0x0A] @
     ''#cgo LDFLAGS: '' @ lookup m ''LIBS'' @ [CHR 0x0A] @
     ''#cgo CFLAGS: -Wno-unused-parameter -Wno-unused-variable -Wno-return-type'' @ [CHR 0x0A] @
     ''#cgo CXXFLAGS: -Wno-unused-parameter -Wno-unused-variable -Wno-return-type''"

definition cgoFlags :: "string list \<Rightarrow> string list \<Rightarrow> string" where
  \<comment> \<open>the three steps in sequence, for the lines of the makefile and an iteration order\<close>
  "cgoFlags ks lines = RenderFlags (ResolveReferences ks (ParseSymbols lines))"

subsection \<open>Notions used to state the properties\<close>

text \<open>
  \<open>split_lines\<close> cuts a text at its line feeds, as \<open>strings.Split(s, "\n")\<close> does.
  \<open>line_values m\<close> says that no value of the table contains a line feed.
\<close>

fun split_lines :: "string \<Rightarrow> string list" where
  "split_lines [] = [[]]"
| "split_lines (c # cs) =
     (if c = CHR 0x0A then [] # split_lines cs
      else (case split_lines cs of [] \<Rightarrow> [[c]] | l # ls \<Rightarrow> (c # l) # ls))"

definition line_values :: "table \<Rightarrow> bool" where
  "line_values m \<longleftrightarrow> (\<forall>k v. m k = Some v \<longrightarrow> CHR 0x0A \<notin> set v)"

text \<open>The seven directive lines, in the order in which the program writes them.\<close>

definition directives :: "table \<Rightarrow> string list" where
  "directives m =
     [''#cgo CFLAGS: '' @ lookup m ''CFLAGS'',
      ''#cgo CXXFLAGS: '' @ lookup m ''CXXFLAGS'',
      ''#cgo CXXFLAGS: '' @ lookup m ''INCPATH'',
      ''#cgo LDFLAGS: '' @ lookup m ''LFLAGS'',
      ''#cgo LDFLAGS: '' @ lookup m ''LIBS'',
      ''#cgo CFLAGS: -Wno-unused-parameter -Wno-unused-variable -Wno-return-type'',
      ''#cgo CXXFLAGS: -Wno-unused-parameter -Wno-unused-variable -Wno-return-type'']"

text \<open>
  A value is settled when the resolve step leaves it as it is: it holds no reference, and
  removing the flag and trimming change nothing. A table has references of one hop only
  when every reference in it names a key that is absent or bound to a settled value.
\<close>

definition settled :: "string \<Rightarrow> bool" where
  "settled w \<longleftrightarrow> FindAllString w = [] \<and> TrimSpace (Replace w '' -Wa,-mbig-obj '' '' '') = w"

definition one_hop :: "table \<Rightarrow> bool" where
  "one_hop m \<longleftrightarrow>
     (\<forall>k v. m k = Some v \<longrightarrow>
        (\<forall>var \<in> set (FindAllString v).
           (case m (ReplaceAllString var) of None \<Rightarrow> True | Some w \<Rightarrow> settled w)))"

text \<open>
  A value seen as a sequence of pieces: stretches of text and references \<open>$(X)\<close>.
  \<open>flatten\<close> is the value itself and \<open>refs\<close> the referenced keys, from left to right.
  \<open>separate ps\<close> says that the pieces are what \<open>rxCompilerVar\<close> finds: the text holds no
  \<open>$\<close>; a referenced key is not empty and holds no white space, \<open>$\<close> or \<open>)\<close>; and
  after a reference no \<open>)\<close> follows before the next white space or the end of the value (the
  greedy \<open>\S+\<close> would take it into the match). \<open>expand m ps\<close> is the value with every reference
  replaced by what the table stores for its key, the empty string for an absent key.
\<close>

datatype piece = Text string | Ref string

fun flatten :: "piece list \<Rightarrow> string" where
  "flatten [] = []"
| "flatten (Text s # ps) = s @ flatten ps"
| "flatten (Ref X # ps) = ''$('' @ X @ '')'' @ flatten ps"

fun refs :: "piece list \<Rightarrow> string list" where
  "refs [] = []"
| "refs (Text s # ps) = refs ps"
| "refs (Ref X # ps) = X # refs ps"

fun separate :: "piece list \<Rightarrow> bool" where
  "separate [] = True"
| "separate (Text s # ps) = (CHR ''$'' \<notin> set s \<and> separate ps)"
| "separate (Ref X # ps) =
     (X \<noteq> [] \<and> (\<forall>c \<in> set X. rx_nonspace c \<and> c \<noteq> CHR ''$'' \<and> c \<noteq> CHR '')'')
      \<and> CHR '')'' \<notin> set (takeWhile rx_nonspace (flatten ps)) \<and> separate ps)"

fun expand :: "table \<Rightarrow> piece list \<Rightarrow> string" where
  "expand m [] = []"
| "expand m (Text s # ps) = s @ expand m ps"
| "expand m (Ref X # ps) = lookup m X @ expand m ps"

text \<open>Used in the proofs only: pieces whose text holds no \<open>$\<close>, and the effect of one replacement.\<close>

definition name_ok :: "string \<Rightarrow> bool" where
  "name_ok X \<longleftrightarrow> X \<noteq> [] \<and> (\<forall>c \<in> set X. rx_nonspace c \<and> c \<noteq> CHR ''$'' \<and> c \<noteq> CHR '')'')"

fun plain :: "piece list \<Rightarrow> bool" where
  "plain [] = True"
| "plain (Text s # ps) = (CHR ''$'' \<notin> set s \<and> plain ps)"
| "plain (Ref X # ps) = (name_ok X \<and> plain ps)"

definition inline :: "table \<Rightarrow> string \<Rightarrow> piece \<Rightarrow> piece" where
  "inline m X p = (if p = Ref X then Text (lookup m X) else p)"

section \<open>Properties\<close>

subsection \<open>Backtracking over a greedy repetition\<close>

lemma first_match_append:
  "first_match f (xs @ ys) = (case first_match f xs of Some y \<Rightarrow> Some y | None \<Rightarrow> first_match f ys)"
  by (induction xs) (auto split: option.splits)

lemma first_match_map: "first_match f (map g xs) = first_match (\<lambda>x. f (g x)) xs"
  by (induction xs) (auto split: option.splits)

lemma first_match_filter:
  "first_match f (filter Q xs) = first_match (\<lambda>x. if Q x then f x else None) xs"
  by (induction xs) (auto split: option.splits)

lemma rx_star_Cons_mem:
  assumes "P c" and "(a, b) \<in> set (rx_star P cs)"
  shows "(c # a, b) \<in> set (rx_star P (c # cs))"
proof -
  have "(c # a, b) = (\<lambda>(a, b). (c # a, b)) (a, b)" by simp
  then have "(c # a, b) \<in> (\<lambda>(a, b). (c # a, b)) ` set (rx_star P cs)"
    using assms(2) by (rule image_eqI)
  with assms(1) show ?thesis by simp
qed

lemma first_match_rx_star:
  assumes "\<forall>c \<in> set a. P c" and "f (a, b) = Some y"
    and "\<And>a' b'. (a', b') \<in> set (rx_star P (a @ b)) \<Longrightarrow> length a < length a' \<Longrightarrow> f (a', b') = None"
  shows "first_match f (rx_star P (a @ b)) = Some y"
  using assms
proof (induction a arbitrary: f)
  case Nil
  show ?case
  proof (cases b)
    case Nil
    with Nil.prems show ?thesis by simp
  next
    case (Cons c cs)
    show ?thesis
    proof (cases "P c")
      case False
      with Nil.prems(2) Cons show ?thesis by simp
    next
      case True
      have "first_match (\<lambda>x. f (case x of (a, b) \<Rightarrow> (c # a, b))) (rx_star P cs) = None"
      proof (rule first_match_None)
        fix x assume x: "x \<in> set (rx_star P cs)"
        obtain a' b' where ab: "x = (a', b')" by (cases x)
        with x True Cons have "(c # a', b') \<in> set (rx_star P ([] @ b))"
          using rx_star_Cons_mem [of P c a' b' cs] by simp
        from Nil.prems(3) [OF this] ab
        show "f (case x of (a, b) \<Rightarrow> (c # a, b)) = None" by simp
      qed
      with Nil.prems(2) Cons True show ?thesis
        by (simp add: first_match_append first_match_map)
    qed
  qed
next
  case (Cons c a)
  from Cons.prems(1) have Pc: "P c" and Pa: "\<forall>c \<in> set a. P c" by simp_all
  have "first_match (\<lambda>x. f (case x of (a, b) \<Rightarrow> (c # a, b))) (rx_star P (a @ b)) = Some y"
  proof (rule Cons.IH [OF Pa])
    show "f (case (a, b) of (a, b) \<Rightarrow> (c # a, b)) = Some y" using Cons.prems(2) by simp
    fix a' b' assume mem: "(a', b') \<in> set (rx_star P (a @ b))" and len: "length a < length a'"
    from mem Pc have "(c # a', b') \<in> set (rx_star P ((c # a) @ b))"
      using rx_star_Cons_mem [of P c a' b' "a @ b"] by simp
    from Cons.prems(3) [OF this] len
    show "f (case (a', b') of (a, b) \<Rightarrow> (c # a, b)) = None" by simp
  qed
  with Pc show ?case
    by (simp add: first_match_append first_match_map)
qed

lemma first_match_rx_plus:
  assumes "\<forall>c \<in> set a. P c" and "a \<noteq> []" and "f (a, b) = Some y"
    and "\<And>a' b'. (a', b') \<in> set (rx_star P (a @ b)) \<Longrightarrow> length a < length a' \<Longrightarrow> f (a', b') = None"
  shows "first_match f (rx_plus P (a @ b)) = Some y"
  unfolding rx_plus_def first_match_filter
  by (rule first_match_rx_star) (use assms in auto)

subsection \<open>What \<open>rxMakefile\<close> matches\<close>

lemma rxMakefile_sound:
  assumes "rxMakefile text = Some (key, val)"
  shows "\<exists>sp1 sp2. text = key @ sp1 @ CHR ''='' # sp2 @ val
           \<and> key \<noteq> [] \<and> (\<forall>c \<in> set key. rx_nonspace c)
           \<and> (\<forall>c \<in> set sp1. rx_space c) \<and> (\<forall>c \<in> set sp2. rx_space c)
           \<and> val \<noteq> [] \<and> (\<forall>c \<in> set val. rx_dot c)"
proof -
  from first_match_SomeD [OF assms [unfolded rxMakefile_def]]
  obtain k r1 where m1: "(k, r1) \<in> set (rx_plus rx_nonspace text)"
    and f1: "first_match (\<lambda>(sp1, r2).
         (case r2 of
            [] \<Rightarrow> None
          | c # r3 \<Rightarrow>
              if c = CHR ''='' then
                first_match (\<lambda>(sp2, r4).
                  first_match (\<lambda>(val, r5). if r5 = [] then Some (k, val) else None)
                    (rx_plus rx_dot r4))
                  (rx_star rx_space r3)
              else None))
         (rx_star rx_space r1) = Some (key, val)"
    by auto
  from first_match_SomeD [OF f1]
  obtain sp1 r2 where m2: "(sp1, r2) \<in> set (rx_star rx_space r1)"
    and f2: "(case r2 of
            [] \<Rightarrow> None
          | c # r3 \<Rightarrow>
              if c = CHR ''='' then
                first_match (\<lambda>(sp2, r4).
                  first_match (\<lambda>(val, r5). if r5 = [] then Some (k, val) else None)
                    (rx_plus rx_dot r4))
                  (rx_star rx_space r3)
              else None) = Some (key, val)"
    by auto
  from f2 obtain r3 where r2: "r2 = CHR ''='' # r3"
    and f3: "first_match (\<lambda>(sp2, r4).
                  first_match (\<lambda>(val, r5). if r5 = [] then Some (k, val) else None)
                    (rx_plus rx_dot r4))
                  (rx_star rx_space r3) = Some (key, val)"
    by (auto split: list.splits if_splits)
  from first_match_SomeD [OF f3]
  obtain sp2 r4 where m3: "(sp2, r4) \<in> set (rx_star rx_space r3)"
    and f4: "first_match (\<lambda>(val, r5). if r5 = [] then Some (k, val) else None)
                    (rx_plus rx_dot r4) = Some (key, val)"
    by auto
  from first_match_SomeD [OF f4]
  obtain v r5 where m4: "(v, r5) \<in> set (rx_plus rx_dot r4)"
    and f5: "(if r5 = [] then Some (k, v) else None) = Some (key, val)"
    by auto
  from f5 have e: "r5 = []" "k = key" "v = val" by (auto split: if_splits)
  from rx_plus_split [OF m1] rx_star_split [OF m2] rx_star_split [OF m3] rx_plus_split [OF m4] r2 e
  show ?thesis by auto
qed

lemma rxMakefile_complete:
  assumes key: "key \<noteq> []" "\<forall>c \<in> set key. rx_nonspace c"
    and sp: "\<forall>c \<in> set sp1. rx_space c" "\<forall>c \<in> set sp2. rx_space c"
    and val: "val \<noteq> []" "rx_nonspace (hd val)" "\<forall>c \<in> set val. rx_dot c"
    and sep: "sp1 \<noteq> [] \<or> CHR ''='' \<notin> set val"
  shows "rxMakefile (key @ sp1 @ CHR ''='' # sp2 @ val) = Some (key, val)"
proof -
  let ?f4 = "\<lambda>k. (\<lambda>(val, r5). if r5 = [] then Some (k, val) else None)"
  let ?f3 = "\<lambda>k. (\<lambda>(sp2 :: string, r4). first_match (?f4 k) (rx_plus rx_dot r4))"
  let ?f2 = "\<lambda>k. (\<lambda>(sp1 :: string, r2). (case r2 of [] \<Rightarrow> None
          | c # r3 \<Rightarrow> if c = CHR ''='' then first_match (?f3 k) (rx_star rx_space r3) else None))"
  let ?f1 = "\<lambda>(k, r1). first_match (?f2 k) (rx_star rx_space r1)"
  have neq: "\<not> rx_space CHR ''=''" by (simp add: rx_space_def)
  have s4: "first_match (?f4 key) (rx_plus rx_dot val) = Some (key, val)"
  proof -
    have "first_match (?f4 key) (rx_plus rx_dot (val @ [])) = Some (key, val)"
    proof (rule first_match_rx_plus [OF val(3) val(1)])
      show "?f4 key (val, []) = Some (key, val)" by simp
      fix a' b' assume "(a', b') \<in> set (rx_star rx_dot (val @ []))" "length val < length a'"
      with rx_star_split [of a' b' rx_dot "val @ []"] have False by auto
      then show "?f4 key (a', b') = None" ..
    qed
    then show ?thesis by simp
  qed
  have s3: "first_match (?f3 key) (rx_star rx_space (sp2 @ val)) = Some (key, val)"
  proof (rule first_match_rx_star [OF sp(2)])
    show "?f3 key (sp2, val) = Some (key, val)" using s4 by simp
    fix a' b' assume "(a', b') \<in> set (rx_star rx_space (sp2 @ val))" "length sp2 < length a'"
    with rx_star_split [of a' b' rx_space "sp2 @ val"] val(1,2)
    have False
      by (auto simp: rx_nonspace_def append_eq_append_conv2 neq_Nil_conv append_eq_Cons_conv)
    then show "?f3 key (a', b') = None" ..
  qed
  have s2: "first_match (?f2 key) (rx_star rx_space (sp1 @ CHR ''='' # sp2 @ val)) = Some (key, val)"
  proof (rule first_match_rx_star [OF sp(1)])
    show "?f2 key (sp1, CHR ''='' # sp2 @ val) = Some (key, val)" using s3 by simp
    fix a' b' assume "(a', b') \<in> set (rx_star rx_space (sp1 @ CHR ''='' # sp2 @ val))" "length sp1 < length a'"
    with rx_star_split [of a' b' rx_space "sp1 @ CHR ''='' # sp2 @ val"] neq
    have False
      by (auto simp: append_eq_append_conv2 neq_Nil_conv append_eq_Cons_conv)
    then show "?f2 key (a', b') = None" ..
  qed
  have "first_match ?f1 (rx_plus rx_nonspace (key @ sp1 @ CHR ''='' # sp2 @ val)) = Some (key, val)"
  proof (rule first_match_rx_plus [OF key(2) key(1)])
    show "?f1 (key, sp1 @ CHR ''='' # sp2 @ val) = Some (key, val)" using s2 by simp
    fix a' b'
    assume mem: "(a', b') \<in> set (rx_star rx_nonspace (key @ sp1 @ CHR ''='' # sp2 @ val))"
      and len: "length key < length a'"
    from rx_star_split [OF mem]
    have eq: "key @ sp1 @ CHR ''='' # sp2 @ val = a' @ b'" and ns: "\<forall>c \<in> set a'. rx_nonspace c"
      by simp_all
    define t where "t = drop (length key) a'"
    from arg_cong [OF eq, of "take (length key)"] len have "key = take (length key) a'" by simp
    then have a': "a' = key @ t" unfolding t_def by (metis append_take_drop_id)
    from len have t: "t \<noteq> []" by (simp add: t_def)
    from eq a' have rest: "sp1 @ CHR ''='' # sp2 @ val = t @ b'" by simp
    have sp1: "sp1 = []"
    proof (rule ccontr)
      assume "sp1 \<noteq> []"
      with rest t have "hd sp1 = hd t" by (cases sp1; cases t) auto
      with \<open>sp1 \<noteq> []\<close> t sp(1) ns a' show False by (cases sp1; cases t) (auto simp: rx_nonspace_def)
    qed
    with sep have noeq: "CHR ''='' \<notin> set val" by simp
    from rest sp1 t obtain t' where "t = CHR ''='' # t'" and b': "sp2 @ val = t' @ b'"
      by (cases t) auto
    have "?f2 a' (s1, r2) = None" if "(s1, r2) \<in> set (rx_star rx_space b')" for s1 r2
    proof -
      from rx_star_split [OF that] have "b' = s1 @ r2" by simp
      with b' have "set r2 \<subseteq> set sp2 \<union> set val"
        by (metis Un_iff set_append subsetI)
      with noeq sp(2) neq have "CHR ''='' \<notin> set r2" by auto
      then show ?thesis by (cases r2) auto
    qed
    then have "first_match (?f2 a') (rx_star rx_space b') = None"
      by (intro first_match_None) auto
    then show "?f1 (a', b') = None" by simp
  qed
  then show ?thesis by (simp add: rxMakefile_def)
qed

subsection \<open>The loop over the keys\<close>

lemma dom_resolve_key: "dom (resolve_key k m) = dom m"
  by (auto simp: resolve_key_def split: option.splits)

lemma dom_fold_resolve_key: "dom (fold resolve_key ks m) = dom m"
  by (induction ks arbitrary: m) (simp_all add: dom_resolve_key)

lemma dom_ResolveReferences: "dom (ResolveReferences ks m) = dom m"
  unfolding ResolveReferences_def by (rule dom_fold_resolve_key)

lemma resolve_key_other: "k \<noteq> k' \<Longrightarrow> resolve_key k' m k = m k"
  by (simp add: resolve_key_def split: option.splits)

lemma fold_resolve_key_other: "k \<notin> set ks \<Longrightarrow> fold resolve_key ks m k = m k"
  by (induction ks arbitrary: m) (simp_all add: resolve_key_other)

lemma fold_resolve_key_at:
  assumes "distinct ks" and "k \<in> set ks" and "m k = Some v"
  shows "fold resolve_key ks m k
           = Some (resolve_value (fold resolve_key (takeWhile (\<lambda>x. x \<noteq> k) ks) m) v)"
  using assms
proof (induction ks arbitrary: m)
  case Nil
  then show ?case by simp
next
  case (Cons x ks)
  show ?case
  proof (cases "x = k")
    case True
    with Cons.prems have "k \<notin> set ks" by simp
    then have "fold resolve_key ks (resolve_key k m) k = resolve_key k m k"
      by (rule fold_resolve_key_other)
    moreover from Cons.prems(3) have "resolve_key k m k = Some (resolve_value m v)"
      by (simp add: resolve_key_def)
    ultimately show ?thesis using True by simp
  next
    case False
    with Cons.prems have "distinct ks" "k \<in> set ks" "resolve_key x m k = Some v"
      by (simp_all add: resolve_key_other)
    from Cons.IH [of "resolve_key x m", OF this] False show ?thesis by simp
  qed
qed

lemma ResolveReferences_at:
  assumes "distinct ks" and "k \<in> set ks" and "m k = Some v"
  shows "ResolveReferences ks m k
           = Some (resolve_value (ResolveReferences (takeWhile (\<lambda>x. x \<noteq> k) ks) m) v)"
  unfolding ResolveReferences_def using fold_resolve_key_at [of ks k m v, OF assms] .

lemma substitute_cong:
  assumes "\<And>var. var \<in> set (FindAllString v) \<Longrightarrow>
             lookup m (ReplaceAllString var) = lookup m' (ReplaceAllString var)"
  shows "substitute m v = substitute m' v"
  unfolding substitute_def
  by (rule fold_cong) (use assms in auto)

lemma resolve_value_cong:
  assumes "\<And>var. var \<in> set (FindAllString v) \<Longrightarrow>
             lookup m (ReplaceAllString var) = lookup m' (ReplaceAllString var)"
  shows "resolve_value m v = resolve_value m' v"
  unfolding resolve_value_def using substitute_cong [OF assms] by simp

lemma set_Replace: "set (Replace s old new) \<subseteq> set s \<union> set new"
proof (induction s old new rule: Replace.induct)
  case (1 old new)
  then show ?case by simp
next
  case (2 c cs old new)
  show ?case
  proof (cases "old \<noteq> [] \<and> prefix old (c # cs)")
    case True
    have "set (drop (length old) (c # cs)) \<subseteq> set (c # cs)" by (rule set_drop_subset)
    with 2(1) [OF True] True show ?thesis by auto
  next
    case False
    with 2(2) [OF False] show ?thesis by auto
  qed
qed

lemma strip_rune_set: "strip_rune es s = Some r \<Longrightarrow> set r \<subseteq> set s"
  by (induction es) (auto split: if_splits dest: in_set_dropD)

lemma set_trim_left: "set (trim_left es s) \<subseteq> set s"
proof (induction es s rule: trim_left.induct)
  case (1 es)
  then show ?case by simp
next
  case (2 es c cs)
  show ?case
  proof (cases "strip_rune es (c # cs)")
    case None
    then show ?thesis by simp
  next
    case (Some r)
    with 2 [OF Some] strip_rune_set [OF Some] show ?thesis by auto
  qed
qed

lemma set_TrimSpace: "set (TrimSpace s) \<subseteq> set s"
proof -
  have "set (TrimSpace s) \<subseteq> set (rev (trim_left space_runes s))"
    using set_trim_left [of "map rev space_runes" "rev (trim_left space_runes s)"]
    by (simp add: TrimSpace_def)
  also have "\<dots> \<subseteq> set s"
    using set_trim_left [of space_runes s] by simp
  finally show ?thesis .
qed


lemma line_values_lookup: "line_values m \<Longrightarrow> CHR 0x0A \<notin> set (lookup m k)"
  by (auto simp: line_values_def lookup_def split: option.splits)

lemma substitute_line:
  assumes "line_values m" and "CHR 0x0A \<notin> set v"
  shows "CHR 0x0A \<notin> set (substitute m v)"
proof -
  have "CHR 0x0A \<notin> set (fold (\<lambda>variable fv. Replace fv variable (lookup m (ReplaceAllString variable))) vars v)"
    for vars
    using assms(2)
  proof (induction vars arbitrary: v)
    case Nil
    then show ?case by simp
  next
    case (Cons x vars)
    from set_Replace [of v x "lookup m (ReplaceAllString x)"] Cons.prems line_values_lookup [OF assms(1)]
    have "CHR 0x0A \<notin> set (Replace v x (lookup m (ReplaceAllString x)))" by auto
    from Cons.IH [OF this] show ?case by simp
  qed
  then show ?thesis by (simp add: substitute_def)
qed

lemma resolve_value_line:
  assumes "line_values m" and "CHR 0x0A \<notin> set v"
  shows "CHR 0x0A \<notin> set (resolve_value m v)"
proof -
  from set_Replace [of "substitute m v" "'' -Wa,-mbig-obj ''" "'' ''"] substitute_line [OF assms]
  have "CHR 0x0A \<notin> set (Replace (substitute m v) '' -Wa,-mbig-obj '' '' '')" by auto
  with set_TrimSpace show ?thesis unfolding resolve_value_def by blast
qed

lemma resolve_key_line: "line_values m \<Longrightarrow> line_values (resolve_key k m)"
  unfolding resolve_key_def
  by (auto simp: line_values_def split: option.splits dest!: resolve_value_line [unfolded line_values_def, rotated])

lemma ResolveReferences_line: "line_values m \<Longrightarrow> line_values (ResolveReferences ks m)"
  unfolding ResolveReferences_def
  by (induction ks arbitrary: m) (simp_all add: resolve_key_line)

lemma parse_line_line: "line_values m \<Longrightarrow> line_values (parse_line text m)"
  by (auto simp: parse_line_def FindStringSubmatch_def line_values_def rx_dot_def Let_def
      split: option.splits dest!: rxMakefile_sound)

lemma fold_parse_line_line: "line_values m \<Longrightarrow> line_values (fold parse_line ls m)"
  by (induction ls arbitrary: m) (simp_all add: parse_line_line)

lemma ParseSymbols_line: "line_values (ParseSymbols ls)"
  unfolding ParseSymbols_def by (rule fold_parse_line_line) (simp add: line_values_def)

subsection \<open>The key set\<close>

text \<open>
  C9. ResolveReferences preserves the key set of the symbol table: whatever the order in
  which the keys are processed, the resulting table has exactly the keys of the table it
  started from; substitution, patching and trimming change values only.
\<close>

theorem ResolveReferences_same_keys: "dom (ResolveReferences ks m) = dom m"
  unfolding ResolveReferences_def by (rule dom_fold_resolve_key)

subsection \<open>The rendered directives\<close>

lemma split_lines_single: "CHR 0x0A \<notin> set a \<Longrightarrow> split_lines a = [a]"
  by (induction a) auto

lemma split_lines_append:
  "CHR 0x0A \<notin> set a \<Longrightarrow> split_lines (a @ CHR 0x0A # rest) = a # split_lines rest"
  by (induction a) auto

lemma split_lines_append2:
  "CHR 0x0A \<notin> set a \<Longrightarrow> CHR 0x0A \<notin> set b \<Longrightarrow>
   split_lines (a @ b @ CHR 0x0A # rest) = (a @ b) # split_lines rest"
  using split_lines_append [of "a @ b" rest] by simp

lemma split_lines_RenderFlags:
  assumes "line_values m"
  shows "split_lines (RenderFlags m) = directives m"
proof -
  note nl = line_values_lookup [OF assms]
  have c: "CHR 0x0A \<notin> set ''#cgo CFLAGS: ''" "CHR 0x0A \<notin> set ''#cgo CXXFLAGS: ''"
    "CHR 0x0A \<notin> set ''#cgo LDFLAGS: ''"
    "CHR 0x0A \<notin> set ''#cgo CFLAGS: -Wno-unused-parameter -Wno-unused-variable -Wno-return-type''"
    "CHR 0x0A \<notin> set ''#cgo CXXFLAGS: -Wno-unused-parameter -Wno-unused-variable -Wno-return-type''"
    by simp_all
  show ?thesis
    unfolding RenderFlags_def directives_def append_Cons [of "CHR 0x0A" "[]"] append_Nil
    by (simp only: split_lines_append2 [OF c(1) nl] split_lines_append2 [OF c(2) nl]
        split_lines_append2 [OF c(3) nl] split_lines_append [OF c(4)] split_lines_single [OF c(5)])
qed

text \<open>
  C5. For every symbol table, the empty one included, RenderFlags produces exactly seven
  directive lines in the fixed order CFLAGS (from key CFLAGS), CXXFLAGS (from CXXFLAGS),
  CXXFLAGS (from INCPATH), LDFLAGS (from LFLAGS), LDFLAGS (from LIBS), then the two fixed
  warning-suppression lines; a missing key renders as a directive with an empty value and is
  not an error. The text that RenderFlags returns is cut at its line feeds: the lines are
  the seven of \<open>directives\<close> for every table whose values hold no line feed, which is
  every table that parsing and resolving can produce (second conjunct), and for the empty
  table each of the five directives has an empty value (last conjunct).
\<close>

theorem RenderFlags_seven_lines:
  "(line_values m \<longrightarrow> split_lines (RenderFlags m) = directives m)
   \<and> split_lines (cgoFlags ks lines) = directives (ResolveReferences ks (ParseSymbols lines))
   \<and> length (directives m) = 7
   \<and> (m k = None \<longrightarrow> lookup m k = [])
   \<and> split_lines (RenderFlags Map.empty) =
        [''#cgo CFLAGS: '', ''#cgo CXXFLAGS: '', ''#cgo CXXFLAGS: '', ''#cgo LDFLAGS: '',
         ''#cgo LDFLAGS: '',
         ''#cgo CFLAGS: -Wno-unused-parameter -Wno-unused-variable -Wno-return-type'',
         ''#cgo CXXFLAGS: -Wno-unused-parameter -Wno-unused-variable -Wno-return-type'']"
proof -
  have "line_values (ResolveReferences ks (ParseSymbols lines))"
    by (rule ResolveReferences_line [OF ParseSymbols_line])
  then have "split_lines (cgoFlags ks lines) = directives (ResolveReferences ks (ParseSymbols lines))"
    unfolding cgoFlags_def by (rule split_lines_RenderFlags)
  moreover have "line_values Map.empty" by (simp add: line_values_def)
  then have "split_lines (RenderFlags Map.empty) = directives Map.empty"
    by (rule split_lines_RenderFlags)
  ultimately show ?thesis
    by (simp add: split_lines_RenderFlags) (simp add: directives_def lookup_def)
qed

theorem RenderFlags_seven_lines_witness:
  "line_values [''CFLAGS'' \<mapsto> ''-O2'', ''LIBS'' \<mapsto> ''-lm'']
   \<and> split_lines (RenderFlags [''CFLAGS'' \<mapsto> ''-O2'', ''LIBS'' \<mapsto> ''-lm'']) =
        [''#cgo CFLAGS: -O2'', ''#cgo CXXFLAGS: '', ''#cgo CXXFLAGS: '', ''#cgo LDFLAGS: '',
         ''#cgo LDFLAGS: -lm'',
         ''#cgo CFLAGS: -Wno-unused-parameter -Wno-unused-variable -Wno-return-type'',
         ''#cgo CXXFLAGS: -Wno-unused-parameter -Wno-unused-variable -Wno-return-type'']"
proof -
  have lv: "line_values [''CFLAGS'' \<mapsto> ''-O2'', ''LIBS'' \<mapsto> ''-lm'']"
    by (auto simp: line_values_def split: if_splits)
  from RenderFlags_seven_lines [of "[''CFLAGS'' \<mapsto> ''-O2'', ''LIBS'' \<mapsto> ''-lm'']" "[]" "[]" "''INCPATH''"] lv
  show ?thesis by (simp add: directives_def lookup_def)
qed

subsection \<open>Parsing\<close>

lemma parse_line_eq:
  "parse_line text m = (case rxMakefile text of None \<Rightarrow> m | Some (key, val) \<Rightarrow> m(key \<mapsto> val))"
  by (simp add: parse_line_def FindStringSubmatch_def Let_def split: option.splits)

lemma ParseSymbols_snoc: "ParseSymbols (ls @ [text]) = parse_line text (ParseSymbols ls)"
  by (simp add: ParseSymbols_def)


lemma fold_parse_line_nonempty:
  "(\<forall>k. m k \<noteq> Some []) \<Longrightarrow> fold parse_line ls m k \<noteq> Some []"
proof (induction ls arbitrary: m)
  case Nil
  then show ?case by simp
next
  case (Cons l ls)
  have "\<forall>k. parse_line l m k \<noteq> Some []"
    using Cons.prems by (auto simp: parse_line_eq split: option.splits dest: rxMakefile_sound)
  from Cons.IH [OF this] show ?case by simp
qed

lemma rxMakefile_ends_with_eq:
  assumes "CHR ''='' \<notin> set p"
  shows "rxMakefile (p @ ''='') = None"
proof (cases "rxMakefile (p @ ''='')")
  case None
  then show ?thesis .
next
  case (Some kv)
  obtain key val where kv: "kv = (key, val)" by (cases kv)
  from rxMakefile_sound [OF Some [unfolded kv]] obtain sp1 sp2 where
    eq: "p @ ''='' = key @ sp1 @ CHR ''='' # sp2 @ val" and val: "val \<noteq> []"
    by blast
  from val obtain val' c where "val = val' @ [c]" by (metis rev_exhaust)
  with eq have "p @ ''='' = (key @ sp1 @ CHR ''='' # sp2 @ val') @ [c]" by simp
  then have "p = key @ sp1 @ CHR ''='' # sp2 @ val'" by (simp only: append1_eq_conv)
  with assms show ?thesis by auto
qed

text \<open>
  C10. Parsing never binds a key to the empty string, and a line that ends immediately after
  its \<open>=\<close> sign (such as \<open>A =\<close> or \<open>A=\<close>: the \<open>=\<close> is the last character of the
  line and the only one) adds no entry at all: the pattern needs at least one character of
  value, so the line is skipped like any line that does not match.
\<close>

theorem ParseSymbols_never_empty_value:
  "ParseSymbols ls k \<noteq> Some []
   \<and> (CHR ''='' \<notin> set p \<longrightarrow>
        FindStringSubmatch (p @ ''='') = [] \<and> ParseSymbols (ls @ [p @ ''='']) = ParseSymbols ls)"
proof -
  have "ParseSymbols ls k \<noteq> Some []"
    unfolding ParseSymbols_def by (rule fold_parse_line_nonempty) simp
  then show ?thesis
    by (simp add: ParseSymbols_snoc parse_line_eq FindStringSubmatch_def rxMakefile_ends_with_eq)
qed

theorem ParseSymbols_never_empty_value_witness:
  "CHR ''='' \<notin> set ''A ''
   \<and> FindStringSubmatch ''A ='' = [] \<and> ParseSymbols [''B = 2'', ''A =''] = ParseSymbols [''B = 2'']
   \<and> ParseSymbols [''B = 2'', ''A =''] ''A'' = None
   \<and> FindStringSubmatch ''A='' = []"
proof -
  have "ParseSymbols [''B = 2''] ''A'' = None"
    by (simp add: ParseSymbols_def parse_line_eq rxMakefile_def rx_plus_def rx_nonspace_def rx_space_def rx_dot_def)
  then show ?thesis
  using ParseSymbols_never_empty_value [of "[''B = 2'']" "''A''" "''A ''"]
    ParseSymbols_never_empty_value [of "[]" "''A''" "''A''"]
  by simp
qed

text \<open>
  C3, as claimed: every well-formed line \<open>KEY = VALUE\<close> gives an entry whose key and value
  are both trimmed of surrounding white space at parse time. The line \<open>A = 1\<close> followed
  by one space is bound to the value \<open>1\<close> followed by that space.
\<close>

theorem parse_keeps_trailing_space_counterexample:
  "ParseSymbols [''A = 1 ''] ''A'' = Some ''1 '' \<and> TrimSpace ''1 '' \<noteq> ''1 ''"
  by (simp add: ParseSymbols_def parse_line_eq rxMakefile_def rx_plus_def rx_nonspace_def
      rx_space_def rx_dot_def TrimSpace_def space_runes_def)

text \<open>
  C3, amended. For a line made of a key (a non-empty run of characters outside \<open>\s\<close>),
  any amount of white space, \<open>=\<close>, any amount of white space, and a value that is not empty,
  starts outside \<open>\s\<close> and holds no line feed, where either some white space precedes the
  \<open>=\<close> or the value holds no further \<open>=\<close>: ParseSymbols binds the key to the value as
  it stands up to the end of the line. White space around the \<open>=\<close> is dropped; white space
  at the end of the line stays in the stored value (ResolveReferences trims it later); and a
  line that starts with white space does not match and adds nothing.
\<close>

theorem ParseSymbols_well_formed_line:
  assumes "key \<noteq> []" and "\<forall>c \<in> set key. rx_nonspace c"
    and "\<forall>c \<in> set sp1. rx_space c" and "\<forall>c \<in> set sp2. rx_space c"
    and "val \<noteq> []" and "rx_nonspace (hd val)" and "CHR 0x0A \<notin> set val"
    and "sp1 \<noteq> [] \<or> CHR ''='' \<notin> set val"
  shows "ParseSymbols (ls @ [key @ sp1 @ ''='' @ sp2 @ val]) = (ParseSymbols ls)(key \<mapsto> val)
         \<and> (rx_space c \<longrightarrow> ParseSymbols (ls @ [c # rest]) = ParseSymbols ls)"
proof -
  from assms(7) have "\<forall>c \<in> set val. rx_dot c" by (auto simp: rx_dot_def)
  from rxMakefile_complete [OF assms(1-6) this assms(8)]
  have 1: "ParseSymbols (ls @ [key @ sp1 @ ''='' @ sp2 @ val]) = (ParseSymbols ls)(key \<mapsto> val)"
    by (simp add: ParseSymbols_snoc parse_line_eq)
  have "rxMakefile (c # rest) = None" if "rx_space c"
  proof (cases "rxMakefile (c # rest)")
    case None
    then show ?thesis .
  next
    case (Some kv)
    obtain k v where kv: "kv = (k, v)" by (cases kv)
    from rxMakefile_sound [OF Some [unfolded kv]] that show ?thesis
      by (auto simp: rx_nonspace_def neq_Nil_conv Cons_eq_append_conv)
  qed
  with 1 show ?thesis by (simp add: ParseSymbols_snoc parse_line_eq)
qed

theorem ParseSymbols_well_formed_line_witness:
  "ParseSymbols ([''B = 2''] @ [''A'' @ ''  '' @ ''='' @ '' '' @ ''-O2 -g  '']) = (ParseSymbols [''B = 2''])(''A'' \<mapsto> ''-O2 -g  '')
   \<and> ParseSymbols ([''B = 2''] @ [CHR '' '' # ''A = 1'']) = ParseSymbols [''B = 2'']"
  using ParseSymbols_well_formed_line [of "''A''" "''  ''" "'' ''" "''-O2 -g  ''" "[''B = 2'']" "CHR '' ''" "''A = 1''"]
  by (simp add: rx_nonspace_def rx_space_def)

subsection \<open>Values without a reference\<close>

lemma rxCompilerVar_at_no_dollar: "c \<noteq> CHR ''$'' \<Longrightarrow> rxCompilerVar_at (c # cs) = None"
  by (simp add: rxCompilerVar_at_def split: list.splits)

lemma FindAllString_skip: "CHR ''$'' \<notin> set pre \<Longrightarrow> FindAllString (pre @ s) = FindAllString s"
proof (induction pre)
  case Nil
  then show ?case by simp
next
  case (Cons a pre)
  then have "rxCompilerVar_at (a # pre @ s) = None"
    by (intro rxCompilerVar_at_no_dollar) auto
  with Cons show ?case by simp
qed

lemma FindAllString_no_dollar: "CHR ''$'' \<notin> set s \<Longrightarrow> FindAllString s = []"
  using FindAllString_skip [of s "[]"] by simp

lemma substitute_no_dollar: "CHR ''$'' \<notin> set v \<Longrightarrow> substitute m v = v"
  by (simp add: substitute_def FindAllString_no_dollar)


lemma Replace_here: "old \<noteq> [] \<Longrightarrow> Replace (old @ s) old new = new @ Replace s old new"
  by (cases old) simp_all

lemma Replace_skip:
  "old \<noteq> [] \<Longrightarrow> hd old \<notin> set pre \<Longrightarrow> Replace (pre @ s) old new = pre @ Replace s old new"
  by (induction pre) (auto simp: neq_Nil_conv)






subsection \<open>A single reference\<close>

lemma takeWhile_mem_middle:
  "\<forall>c \<in> set t. P c \<Longrightarrow> P c \<Longrightarrow> c \<in> set (takeWhile P (t @ c # r))"
  by (induction t) auto

lemma rxCompilerVar_at_ref:
  assumes "X \<noteq> []" and "\<forall>c \<in> set X. rx_nonspace c"
    and "CHR '')'' \<notin> set (takeWhile rx_nonspace post)"
  shows "rxCompilerVar_at (''$('' @ X @ '')'' @ post) = Some (''$('' @ X @ '')'', X, post)"
proof -
  let ?f = "\<lambda>(name, r2).
              (case r2 of
                 [] \<Rightarrow> None
               | c3 # r3 \<Rightarrow>
                   if c3 = CHR '')'' then Some (CHR ''$'' # CHR ''('' # name @ [CHR '')''], name, r3)
                   else None)"
  have ns: "rx_nonspace CHR '')''" by (simp add: rx_nonspace_def rx_space_def)
  have "first_match ?f (rx_plus rx_nonspace (X @ CHR '')'' # post)) = Some (''$('' @ X @ '')'', X, post)"
  proof (rule first_match_rx_plus [OF assms(2) assms(1)])
    show "?f (X, CHR '')'' # post) = Some (''$('' @ X @ '')'', X, post)" by simp
    fix a' b'
    assume mem: "(a', b') \<in> set (rx_star rx_nonspace (X @ CHR '')'' # post))"
      and len: "length X < length a'"
    from rx_star_split [OF mem]
    have eq: "X @ CHR '')'' # post = a' @ b'" and ns': "\<forall>c \<in> set a'. rx_nonspace c" by simp_all
    define t where "t = drop (length X) a'"
    from arg_cong [OF eq, of "take (length X)"] len have "X = take (length X) a'" by simp
    then have a': "a' = X @ t" unfolding t_def by (metis append_take_drop_id)
    from len have t: "t \<noteq> []" by (simp add: t_def)
    from eq a' have rest: "CHR '')'' # post = t @ b'" by simp
    with t obtain t' where t': "t = CHR '')'' # t'" and post: "post = t' @ b'"
      by (cases t) auto
    show "?f (a', b') = None"
    proof (cases b')
      case Nil
      then show ?thesis by simp
    next
      case (Cons c r)
      have "c \<noteq> CHR '')''"
      proof
        assume "c = CHR '')''"
        with post Cons have "post = t' @ CHR '')'' # r" by simp
        moreover from ns' a' t' have "\<forall>c \<in> set t'. rx_nonspace c" by simp
        ultimately have "CHR '')'' \<in> set (takeWhile rx_nonspace post)"
          using takeWhile_mem_middle [of t' rx_nonspace "CHR '')''" r] ns by simp
        with assms(3) show False by simp
      qed
      with Cons show ?thesis by simp
    qed
  qed
  then show ?thesis by (simp add: rxCompilerVar_at_def)
qed

lemma FindAllString_ref:
  assumes "X \<noteq> []" and "\<forall>c \<in> set X. rx_nonspace c"
    and "CHR '')'' \<notin> set (takeWhile rx_nonspace post)"
  shows "FindAllString (''$('' @ X @ '')'' @ post) = (''$('' @ X @ '')'') # FindAllString post"
  using rxCompilerVar_at_ref [OF assms] by simp

lemma ReplaceAllString_ref:
  assumes "X \<noteq> []" and "\<forall>c \<in> set X. rx_nonspace c"
  shows "ReplaceAllString (''$('' @ X @ '')'') = X"
  using rxCompilerVar_at_ref [OF assms, of "[]"] by simp

subsection \<open>The table when the turn of a key comes\<close>

lemma fold_resolve_key_before:
  assumes "distinct ks"
  shows "fold resolve_key (takeWhile (\<lambda>x. x \<noteq> k) ks) m k' =
           (if k' \<in> set (takeWhile (\<lambda>x. x \<noteq> k) ks) then fold resolve_key ks m k' else m k')"
proof (cases "k' \<in> set (takeWhile (\<lambda>x. x \<noteq> k) ks)")
  case False
  then show ?thesis by (simp add: fold_resolve_key_other)
next
  case True
  have ks: "ks = takeWhile (\<lambda>x. x \<noteq> k) ks @ dropWhile (\<lambda>x. x \<noteq> k) ks" by simp
  from assms have "distinct (takeWhile (\<lambda>x. x \<noteq> k) ks @ dropWhile (\<lambda>x. x \<noteq> k) ks)" by simp
  then have "set (takeWhile (\<lambda>x. x \<noteq> k) ks) \<inter> set (dropWhile (\<lambda>x. x \<noteq> k) ks) = {}"
    by (simp only: distinct_append)
  with True have "k' \<notin> set (dropWhile (\<lambda>x. x \<noteq> k) ks)" by blast
  then have "fold resolve_key (dropWhile (\<lambda>x. x \<noteq> k) ks)
               (fold resolve_key (takeWhile (\<lambda>x. x \<noteq> k) ks) m) k'
             = fold resolve_key (takeWhile (\<lambda>x. x \<noteq> k) ks) m k'"
    by (rule fold_resolve_key_other)
  moreover have "fold resolve_key ks m
      = fold resolve_key (dropWhile (\<lambda>x. x \<noteq> k) ks) (fold resolve_key (takeWhile (\<lambda>x. x \<noteq> k) ks) m)"
    by (subst ks) (simp only: fold_append comp_apply)
  ultimately show ?thesis using True by simp
qed


lemma lookup_before:
  assumes "distinct ks"
  shows "lookup (ResolveReferences (takeWhile (\<lambda>x. x \<noteq> k) ks) m) k' =
           (if k' \<in> set (takeWhile (\<lambda>x. x \<noteq> k) ks) then lookup (ResolveReferences ks m) k'
            else lookup m k')"
  unfolding ResolveReferences_def lookup_def
  using fold_resolve_key_before [OF assms, of k m k'] by simp

lemma resolve_value_single_ref:
  assumes "X \<noteq> []" and "\<forall>c \<in> set X. rx_nonspace c"
  shows "resolve_value m (''$('' @ X @ '')'')
           = TrimSpace (Replace (lookup m X) '' -Wa,-mbig-obj '' '' '')"
proof -
  have "FindAllString (''$('' @ X @ '')'' @ []) = [''$('' @ X @ '')'']"
    using FindAllString_ref [OF assms, of "[]"] by simp
  moreover have "Replace ((''$('' @ X @ '')'') @ []) (''$('' @ X @ '')'') (lookup m X) = lookup m X"
    by (subst Replace_here) simp_all
  ultimately have "substitute m (''$('' @ X @ '')'') = lookup m X"
    using ReplaceAllString_ref [OF assms] by (simp add: substitute_def)
  then show ?thesis by (simp add: resolve_value_def)
qed

lemma resolve_value_settled: "settled w \<Longrightarrow> resolve_value m w = w"
  by (simp add: settled_def resolve_value_def substitute_def)

lemma settled_plain: "settled ''x''"
  by (simp add: settled_def TrimSpace_def space_runes_def rxCompilerVar_at_def)

lemma trim_patch_examples:
  "TrimSpace (Replace ''x'' '' -Wa,-mbig-obj '' '' '') = ''x''"
  "TrimSpace (Replace ''$(A)'' '' -Wa,-mbig-obj '' '' '') = ''$(A)''"
  "TrimSpace (Replace ''$(B)'' '' -Wa,-mbig-obj '' '' '') = ''$(B)''"
  "TrimSpace (Replace ''$(C)'' '' -Wa,-mbig-obj '' '' '') = ''$(C)''"
  "TrimSpace ''x'' = ''x''" "TrimSpace ''$(A)'' = ''$(A)''" "TrimSpace ''$(B)'' = ''$(B)''"
  "TrimSpace ''$(C)'' = ''$(C)''"
  by (simp_all add: TrimSpace_def space_runes_def)

lemma key_names: "\<forall>c \<in> set ''A''. rx_nonspace c" "\<forall>c \<in> set ''B''. rx_nonspace c"
  "\<forall>c \<in> set ''C''. rx_nonspace c"
  by (simp_all add: rx_nonspace_def rx_space_def)

lemma resolve_value_ref_examples:
  "resolve_value m ''$(A)'' = TrimSpace (Replace (lookup m ''A'') '' -Wa,-mbig-obj '' '' '')"
  "resolve_value m ''$(B)'' = TrimSpace (Replace (lookup m ''B'') '' -Wa,-mbig-obj '' '' '')"
  "resolve_value m ''$(C)'' = TrimSpace (Replace (lookup m ''C'') '' -Wa,-mbig-obj '' '' '')"
  using resolve_value_single_ref [of "''A''" m] resolve_value_single_ref [of "''B''" m]
    resolve_value_single_ref [of "''C''" m] key_names
  by simp_all

subsection \<open>Chains of references\<close>

text \<open>
  C1, as claimed: for the table \<open>{A: "$(B)", B: "$(C)", C: "x"}\<close> ResolveReferences yields
  \<open>A = "$(C)"\<close> and not \<open>"x"\<close>. When \<open>range\<close> produces \<open>B\<close> before \<open>A\<close>, the value
  stored for \<open>B\<close> is already \<open>"x"\<close> when \<open>A\<close> is resolved, and \<open>A\<close> becomes \<open>"x"\<close>.
\<close>

theorem chain_counterexample:
  "iteration_order [''B'', ''A'', ''C''] [''A'' \<mapsto> ''$(B)'', ''B'' \<mapsto> ''$(C)'', ''C'' \<mapsto> ''x'']
   \<and> ResolveReferences [''B'', ''A'', ''C''] [''A'' \<mapsto> ''$(B)'', ''B'' \<mapsto> ''$(C)'', ''C'' \<mapsto> ''x''] ''A''
       = Some ''x''"
proof -
  have "iteration_order [''B'', ''A'', ''C''] [''A'' \<mapsto> ''$(B)'', ''B'' \<mapsto> ''$(C)'', ''C'' \<mapsto> ''x'']"
    by (auto simp: iteration_order_def)
  moreover have "ResolveReferences [''B'', ''A'', ''C''] [''A'' \<mapsto> ''$(B)'', ''B'' \<mapsto> ''$(C)'', ''C'' \<mapsto> ''x''] ''A''
       = Some ''x''"
    by (simp add: ResolveReferences_def resolve_key_def resolve_value_def substitute_def
        rxCompilerVar_at_def rx_plus_def rx_nonspace_def rx_space_def lookup_def TrimSpace_def
        space_runes_def)
  ultimately show ?thesis ..
qed

text \<open>
  C1, amended. For every table that binds \<open>A\<close> to \<open>$(B)\<close>, \<open>B\<close> to \<open>$(C)\<close> and \<open>C\<close> to
  \<open>x\<close>, and every order in which \<open>range\<close> may produce its keys: ResolveReferences yields
  \<open>A = "$(C)"\<close> when \<open>A\<close> is processed before \<open>B\<close>, and \<open>A = "x"\<close> when \<open>B\<close> is processed
  before \<open>A\<close>. A placeholder is replaced by the value stored for the key at that moment,
  which is never resolved again.
\<close>

theorem chain_depends_on_order:
  assumes "iteration_order ks m"
    and "m ''A'' = Some ''$(B)''" and "m ''B'' = Some ''$(C)''" and "m ''C'' = Some ''x''"
  shows "ResolveReferences ks m ''A'' =
           Some (if ''B'' \<in> set (takeWhile (\<lambda>k. k \<noteq> ''A'') ks) then ''x'' else ''$(C)'')"
proof -
  from assms have d: "distinct ks" and mem: "''A'' \<in> set ks" "''B'' \<in> set ks" "''C'' \<in> set ks"
    by (auto simp: iteration_order_def)
  have C: "ResolveReferences ks m ''C'' = Some ''x''"
    using ResolveReferences_at [of ks "''C''" m, OF d mem(3) assms(4)]
    by (simp add: resolve_value_settled settled_plain)
  have "ResolveReferences ks m ''B'' =
          Some (resolve_value (ResolveReferences (takeWhile (\<lambda>x. x \<noteq> ''B'') ks) m) ''$(C)'')"
    using ResolveReferences_at [of ks "''B''" m, OF d mem(2) assms(3)] by simp
  also have "resolve_value (ResolveReferences (takeWhile (\<lambda>x. x \<noteq> ''B'') ks) m) ''$(C)'' = ''x''"
    unfolding resolve_value_ref_examples lookup_before [OF d]
    using C assms(4) by (simp add: lookup_def trim_patch_examples)
  finally have B: "ResolveReferences ks m ''B'' = Some ''x''" .
  have "ResolveReferences ks m ''A'' =
          Some (resolve_value (ResolveReferences (takeWhile (\<lambda>x. x \<noteq> ''A'') ks) m) ''$(B)'')"
    using ResolveReferences_at [of ks "''A''" m, OF d mem(1) assms(2)] by simp
  also have "resolve_value (ResolveReferences (takeWhile (\<lambda>x. x \<noteq> ''A'') ks) m) ''$(B)''
     = (if ''B'' \<in> set (takeWhile (\<lambda>k. k \<noteq> ''A'') ks) then ''x'' else ''$(C)'')"
    unfolding resolve_value_ref_examples lookup_before [OF d]
    using B assms(3) by (simp add: lookup_def trim_patch_examples)
  finally show ?thesis .
qed

theorem chain_depends_on_order_witness:
  "iteration_order [''A'', ''B'', ''C''] [''A'' \<mapsto> ''$(B)'', ''B'' \<mapsto> ''$(C)'', ''C'' \<mapsto> ''x'']
   \<and> ResolveReferences [''A'', ''B'', ''C''] [''A'' \<mapsto> ''$(B)'', ''B'' \<mapsto> ''$(C)'', ''C'' \<mapsto> ''x''] ''A''
       = Some ''$(C)''
   \<and> iteration_order [''C'', ''B'', ''A''] [''A'' \<mapsto> ''$(B)'', ''B'' \<mapsto> ''$(C)'', ''C'' \<mapsto> ''x'']
   \<and> ResolveReferences [''C'', ''B'', ''A''] [''A'' \<mapsto> ''$(B)'', ''B'' \<mapsto> ''$(C)'', ''C'' \<mapsto> ''x''] ''A''
       = Some ''x''"
proof -
  have 1: "iteration_order [''A'', ''B'', ''C''] [''A'' \<mapsto> ''$(B)'', ''B'' \<mapsto> ''$(C)'', ''C'' \<mapsto> ''x'']"
    and 2: "iteration_order [''C'', ''B'', ''A''] [''A'' \<mapsto> ''$(B)'', ''B'' \<mapsto> ''$(C)'', ''C'' \<mapsto> ''x'']"
    by (auto simp: iteration_order_def)
  from chain_depends_on_order [OF 1] chain_depends_on_order [OF 2] 1 2 show ?thesis by simp
qed

subsection \<open>Termination and cycles\<close>



subsection \<open>Determinism\<close>

lemma ResolveReferences_one_hop:
  assumes "one_hop m" and "iteration_order ks m"
  shows "ResolveReferences ks m k = map_option (resolve_value m) (m k)"
proof (cases "m k")
  case None
  then have "k \<notin> dom (ResolveReferences ks m)" by (simp add: dom_ResolveReferences domIff)
  with None show ?thesis by (simp add: domIff)
next
  case (Some v)
  from assms(2) have d: "distinct ks" and ks: "set ks = dom m" by (simp_all add: iteration_order_def)
  have stable: "lookup (ResolveReferences ks m) X = lookup m X"
    if var: "var \<in> set (FindAllString v')" and v': "m k' = Some v'" and X: "X = ReplaceAllString var"
    for var v' k' X
  proof (cases "m X")
    case None
    then have "X \<notin> dom (ResolveReferences ks m)" by (simp add: dom_ResolveReferences domIff)
    with None show ?thesis by (simp add: lookup_def domIff)
  next
    case (Some w)
    with assms(1) var v' X have w: "settled w" by (fastforce simp: one_hop_def)
    from Some ks have "X \<in> set ks" by auto
    from ResolveReferences_at [of ks X m w, OF d this Some] w Some
    show ?thesis by (simp add: resolve_value_settled lookup_def)
  qed
  have "resolve_value (ResolveReferences (takeWhile (\<lambda>x. x \<noteq> k) ks) m) v = resolve_value m v"
  proof (rule resolve_value_cong)
    fix var assume "var \<in> set (FindAllString v)"
    from stable [OF this Some refl]
    show "lookup (ResolveReferences (takeWhile (\<lambda>x. x \<noteq> k) ks) m) (ReplaceAllString var) =
          lookup m (ReplaceAllString var)"
      by (simp add: lookup_before [OF d])
  qed
  moreover from Some ks have "k \<in> set ks" by auto
  ultimately show ?thesis
    using ResolveReferences_at [of ks k m v, OF d _ Some] Some by simp
qed

text \<open>
  C2, as claimed: two runs of the pipeline on the same lines produce identical resolved
  tables and identical directives, whatever the order in which the keys are processed. For
  the lines \<open>CFLAGS = $(B)\<close>, \<open>B = $(C)\<close>, \<open>C = x\<close> two orders that \<open>range\<close> may choose
  give different values for \<open>CFLAGS\<close> and different directives.
\<close>

theorem order_dependence_counterexample:
  "iteration_order [''CFLAGS'', ''B'', ''C''] (ParseSymbols [''CFLAGS = $(B)'', ''B = $(C)'', ''C = x''])
   \<and> iteration_order [''B'', ''CFLAGS'', ''C''] (ParseSymbols [''CFLAGS = $(B)'', ''B = $(C)'', ''C = x''])
   \<and> ResolveReferences [''CFLAGS'', ''B'', ''C''] (ParseSymbols [''CFLAGS = $(B)'', ''B = $(C)'', ''C = x'']) ''CFLAGS''
        = Some ''$(C)''
   \<and> ResolveReferences [''B'', ''CFLAGS'', ''C''] (ParseSymbols [''CFLAGS = $(B)'', ''B = $(C)'', ''C = x'']) ''CFLAGS''
        = Some ''x''
   \<and> cgoFlags [''CFLAGS'', ''B'', ''C''] [''CFLAGS = $(B)'', ''B = $(C)'', ''C = x'']
        \<noteq> cgoFlags [''B'', ''CFLAGS'', ''C''] [''CFLAGS = $(B)'', ''B = $(C)'', ''C = x'']"
proof -
  have P: "ParseSymbols [''CFLAGS = $(B)'', ''B = $(C)'', ''C = x'']
    = [''CFLAGS'' \<mapsto> ''$(B)'', ''B'' \<mapsto> ''$(C)'', ''C'' \<mapsto> ''x'']"
    by (simp add: ParseSymbols_def parse_line_eq rxMakefile_def rx_plus_def rx_nonspace_def
        rx_space_def rx_dot_def)
  have 1: "ResolveReferences [''CFLAGS'', ''B'', ''C''] [''CFLAGS'' \<mapsto> ''$(B)'', ''B'' \<mapsto> ''$(C)'', ''C'' \<mapsto> ''x''] ''CFLAGS''
        = Some ''$(C)''"
    by (simp add: ResolveReferences_def resolve_key_def resolve_value_def substitute_def
        rxCompilerVar_at_def rx_plus_def rx_nonspace_def rx_space_def lookup_def TrimSpace_def
        space_runes_def)
  have 2: "ResolveReferences [''B'', ''CFLAGS'', ''C''] [''CFLAGS'' \<mapsto> ''$(B)'', ''B'' \<mapsto> ''$(C)'', ''C'' \<mapsto> ''x''] ''CFLAGS''
        = Some ''x''"
    by (simp add: ResolveReferences_def resolve_key_def resolve_value_def substitute_def
        rxCompilerVar_at_def rx_plus_def rx_nonspace_def rx_space_def lookup_def TrimSpace_def
        space_runes_def)
  have 3: "iteration_order [''CFLAGS'', ''B'', ''C''] [''CFLAGS'' \<mapsto> ''$(B)'', ''B'' \<mapsto> ''$(C)'', ''C'' \<mapsto> ''x'']"
    "iteration_order [''B'', ''CFLAGS'', ''C''] [''CFLAGS'' \<mapsto> ''$(B)'', ''B'' \<mapsto> ''$(C)'', ''C'' \<mapsto> ''x'']"
    by (auto simp: iteration_order_def)
  from 1 2 have "cgoFlags [''CFLAGS'', ''B'', ''C''] [''CFLAGS = $(B)'', ''B = $(C)'', ''C = x'']
        \<noteq> cgoFlags [''B'', ''CFLAGS'', ''C''] [''CFLAGS = $(B)'', ''B = $(C)'', ''C = x'']"
    unfolding cgoFlags_def P RenderFlags_def by (simp add: lookup_def)
  with 1 2 3 show ?thesis unfolding P by simp
qed

text \<open>
  C2, amended. The pipeline is a function of the lines and of the order in which \<open>range\<close>
  produces the keys. When the parsed table has references of one hop only (each reference
  names a key that is absent, or a key whose value holds no reference and is left as it is by
  the patch and the trim), the resolved table and the directives are the same for every
  order, so that two runs on the same lines agree.
\<close>

theorem order_independent_without_chains:
  assumes "one_hop (ParseSymbols lines)"
    and "iteration_order ks (ParseSymbols lines)" and "iteration_order ks' (ParseSymbols lines)"
  shows "ResolveReferences ks (ParseSymbols lines) = ResolveReferences ks' (ParseSymbols lines)
         \<and> cgoFlags ks lines = cgoFlags ks' lines"
proof -
  have "ResolveReferences ks (ParseSymbols lines) = ResolveReferences ks' (ParseSymbols lines)"
    by (rule ext) (simp add: ResolveReferences_one_hop [OF assms(1,2)] ResolveReferences_one_hop [OF assms(1,3)])
  then show ?thesis by (simp add: cgoFlags_def)
qed

theorem order_independent_without_chains_witness:
  "one_hop (ParseSymbols [''CFLAGS = -O2 $(DEFS) $(NONE)'', ''DEFS = -DX''])
   \<and> iteration_order [''CFLAGS'', ''DEFS''] (ParseSymbols [''CFLAGS = -O2 $(DEFS) $(NONE)'', ''DEFS = -DX''])
   \<and> iteration_order [''DEFS'', ''CFLAGS''] (ParseSymbols [''CFLAGS = -O2 $(DEFS) $(NONE)'', ''DEFS = -DX''])
   \<and> cgoFlags [''CFLAGS'', ''DEFS''] [''CFLAGS = -O2 $(DEFS) $(NONE)'', ''DEFS = -DX'']
       = cgoFlags [''DEFS'', ''CFLAGS''] [''CFLAGS = -O2 $(DEFS) $(NONE)'', ''DEFS = -DX'']"
proof -
  have P: "ParseSymbols [''CFLAGS = -O2 $(DEFS) $(NONE)'', ''DEFS = -DX'']
    = [''CFLAGS'' \<mapsto> ''-O2 $(DEFS) $(NONE)'', ''DEFS'' \<mapsto> ''-DX'']"
    by (simp add: ParseSymbols_def parse_line_eq rxMakefile_def rx_plus_def rx_nonspace_def
        rx_space_def rx_dot_def)
  have F: "FindAllString ''-O2 $(DEFS) $(NONE)'' = [''$(DEFS)'', ''$(NONE)'']" "FindAllString ''-DX'' = []"
    "ReplaceAllString ''$(DEFS)'' = ''DEFS''" "ReplaceAllString ''$(NONE)'' = ''NONE''"
    by (simp_all add: rxCompilerVar_at_def rx_plus_def rx_nonspace_def rx_space_def)
  have S: "settled ''-DX''"
    unfolding settled_def F by (simp add: TrimSpace_def space_runes_def)
  have 1: "one_hop (ParseSymbols [''CFLAGS = -O2 $(DEFS) $(NONE)'', ''DEFS = -DX''])"
    unfolding P one_hop_def by (auto simp del: FindAllString.simps ReplaceAllString.simps simp add: F S split: if_splits)
  have 2: "iteration_order [''CFLAGS'', ''DEFS''] (ParseSymbols [''CFLAGS = -O2 $(DEFS) $(NONE)'', ''DEFS = -DX''])"
    and 3: "iteration_order [''DEFS'', ''CFLAGS''] (ParseSymbols [''CFLAGS = -O2 $(DEFS) $(NONE)'', ''DEFS = -DX''])"
    unfolding P by (auto simp: iteration_order_def)
  from order_independent_without_chains [OF 1 2 3] 1 2 3 show ?thesis by simp
qed

subsection \<open>References to absent keys\<close>

lemma separate_plain: "separate ps \<Longrightarrow> plain ps"
  by (induction ps rule: separate.induct) (auto simp: name_ok_def)

lemma plain_refs: "plain ps \<Longrightarrow> X \<in> set (refs ps) \<Longrightarrow> name_ok X"
  by (induction ps rule: plain.induct) auto

lemma FindAllString_flatten:
  "separate ps \<Longrightarrow> FindAllString (flatten ps) = map (\<lambda>X. ''$('' @ X @ '')'') (refs ps)"
proof (induction ps rule: separate.induct)
  case 1
  then show ?case by simp
next
  case (2 s ps)
  then show ?case by (simp add: FindAllString_skip)
next
  case (3 X ps)
  then have "FindAllString (''$('' @ X @ '')'' @ flatten ps)
               = (''$('' @ X @ '')'') # FindAllString (flatten ps)"
    by (intro FindAllString_ref) auto
  with 3 show ?case by simp
qed

lemma prefix_closing:
  "CHR '')'' \<notin> set X \<Longrightarrow> CHR '')'' \<notin> set Y \<Longrightarrow> prefix (X @ '')'') (Y @ CHR '')'' # rest)
     \<Longrightarrow> X = Y"
proof (induction X arbitrary: Y)
  case Nil
  then show ?case by (cases Y) auto
next
  case (Cons x X)
  then show ?case by (cases Y) auto
qed

lemma Replace_flatten:
  assumes "name_ok X" and "CHR ''$'' \<notin> set new"
  shows "plain ps \<Longrightarrow>
         Replace (flatten ps) (''$('' @ X @ '')'') new = flatten (map (\<lambda>p. if p = Ref X then Text new else p) ps)"
proof (induction ps rule: plain.induct)
  case 1
  then show ?case by simp
next
  case (2 s ps)
  then have "Replace (s @ flatten ps) (''$('' @ X @ '')'') new
               = s @ Replace (flatten ps) (''$('' @ X @ '')'') new"
    by (intro Replace_skip) auto
  with 2 show ?case by simp
next
  case (3 Y ps)
  show ?case
  proof (cases "Y = X")
    case True
    have "Replace ((''$('' @ X @ '')'') @ flatten ps) (''$('' @ X @ '')'') new
            = new @ Replace (flatten ps) (''$('' @ X @ '')'') new"
      by (rule Replace_here) simp
    with 3 True show ?thesis by simp
  next
    case False
    from 3(2) assms(1) have cl: "CHR '')'' \<notin> set X" "CHR '')'' \<notin> set Y" and dl: "CHR ''$'' \<notin> set Y"
      by (auto simp: name_ok_def)
    have np: "\<not> prefix (''$('' @ X @ '')'') (''$('' @ Y @ '')'' @ flatten ps)"
      using prefix_closing [OF cl, of "flatten ps"] False by auto
    have "Replace ((CHR ''('' # Y @ '')'') @ flatten ps) (''$('' @ X @ '')'') new
               = (CHR ''('' # Y @ '')'') @ Replace (flatten ps) (''$('' @ X @ '')'') new"
      using dl by (intro Replace_skip) auto
    with np 3 False show ?thesis by simp
  qed
qed

lemma plain_inline:
  "plain ps \<Longrightarrow> CHR ''$'' \<notin> set (lookup m X) \<Longrightarrow> plain (map (inline m X) ps)"
  by (induction ps rule: plain.induct) (auto simp: inline_def)

lemma fold_Replace_flatten:
  assumes "\<forall>X \<in> set Xs. name_ok X \<and> CHR ''$'' \<notin> set (lookup m X)"
  shows "plain ps \<Longrightarrow>
         fold (\<lambda>variable fv. Replace fv variable (lookup m (ReplaceAllString variable)))
           (map (\<lambda>X. ''$('' @ X @ '')'') Xs) (flatten ps)
         = flatten (fold (\<lambda>X. map (inline m X)) Xs ps)"
  using assms
proof (induction Xs arbitrary: ps)
  case Nil
  then show ?case by simp
next
  case (Cons X Xs)
  from Cons.prems have ok: "name_ok X" and nd: "CHR ''$'' \<notin> set (lookup m X)" by simp_all
  from ok have "ReplaceAllString (''$('' @ X @ '')'') = X"
    by (intro ReplaceAllString_ref) (auto simp: name_ok_def)
  moreover have "Replace (flatten ps) (''$('' @ X @ '')'') (lookup m X) = flatten (map (inline m X) ps)"
    using Replace_flatten [OF ok nd Cons.prems(1)] by (simp add: inline_def [abs_def])
  moreover have "fold (\<lambda>variable fv. Replace fv variable (lookup m (ReplaceAllString variable)))
           (map (\<lambda>X. ''$('' @ X @ '')'') Xs) (flatten (map (inline m X) ps))
         = flatten (fold (\<lambda>X. map (inline m X)) Xs (map (inline m X) ps))"
    using Cons.prems by (intro Cons.IH plain_inline) auto
  ultimately show ?case by simp
qed

lemma fold_inline:
  "fold (\<lambda>X. map (inline m X)) Xs ps
     = map (\<lambda>p. case p of Text s \<Rightarrow> Text s
                 | Ref Y \<Rightarrow> if Y \<in> set Xs then Text (lookup m Y) else Ref Y) ps"
proof (induction Xs arbitrary: ps)
  case Nil
  then show ?case by (simp add: map_idI split: piece.splits)
next
  case (Cons X Xs)
  show ?case unfolding fold_Cons comp_apply Cons.IH map_map
    by (rule map_cong) (auto simp: inline_def split: piece.splits)
qed

lemma flatten_inlined:
  "set (refs ps) \<subseteq> set Xs \<Longrightarrow>
   flatten (map (\<lambda>p. case p of Text s \<Rightarrow> Text s
                 | Ref Y \<Rightarrow> if Y \<in> set Xs then Text (lookup m Y) else Ref Y) ps) = expand m ps"
  by (induction ps rule: refs.induct) auto

lemma substitute_flatten:
  assumes "separate ps" and "\<forall>X \<in> set (refs ps). CHR ''$'' \<notin> set (lookup m X)"
  shows "substitute m (flatten ps) = expand m ps"
proof -
  note pl = separate_plain [OF assms(1)]
  have "\<forall>X \<in> set (refs ps). name_ok X \<and> CHR ''$'' \<notin> set (lookup m X)"
    using assms(2) plain_refs [OF pl] by blast
  from fold_Replace_flatten [OF this pl] show ?thesis
    unfolding substitute_def FindAllString_flatten [OF assms(1)] fold_inline
    by (simp add: flatten_inlined)
qed

lemma dollar_free_resolved:
  assumes "distinct ks" and "m X = Some w" and "CHR ''$'' \<notin> set w"
  shows "CHR ''$'' \<notin> set (lookup (ResolveReferences ks m) X)"
proof (cases "X \<in> set ks")
  case False
  then have "ResolveReferences ks m X = m X"
    unfolding ResolveReferences_def by (rule fold_resolve_key_other)
  with assms show ?thesis by (simp add: lookup_def)
next
  case True
  have "set (TrimSpace (Replace w '' -Wa,-mbig-obj '' '' '')) \<subseteq> set w \<union> set '' ''"
    using set_TrimSpace [of "Replace w '' -Wa,-mbig-obj '' '' ''"]
      set_Replace [of w "'' -Wa,-mbig-obj ''" "'' ''"] by blast
  with assms(3) have "CHR ''$'' \<notin> set (TrimSpace (Replace w '' -Wa,-mbig-obj '' '' ''))" by auto
  with ResolveReferences_at [of ks X m w, OF assms(1) True assms(2)] assms(3)
  show ?thesis by (simp add: lookup_def resolve_value_def substitute_no_dollar)
qed

text \<open>
  C6, as claimed: every reference \<open>$(X)\<close> to a key absent from the table is replaced by the
  empty string. In the value \<open>$(ARCH) $(CFLAGS_$(ARCH))\<close> the program finds the two
  references \<open>$(ARCH)\<close> and \<open>$(CFLAGS_$(ARCH))\<close>, whose keys \<open>ARCH\<close> and
  \<open>CFLAGS_$(ARCH)\<close> are both absent. Replacing the text \<open>$(ARCH)\<close> first, everywhere,
  leaves \<open>$(CFLAGS_)\<close>, in which the text of the second reference no longer occurs: the
  resolved value is \<open>$(CFLAGS_)\<close>, not the empty string.
\<close>

theorem nested_reference_counterexample:
  "FindAllString ''$(ARCH) $(CFLAGS_$(ARCH))'' = [''$(ARCH)'', ''$(CFLAGS_$(ARCH))'']
   \<and> map ReplaceAllString [''$(ARCH)'', ''$(CFLAGS_$(ARCH))''] = [''ARCH'', ''CFLAGS_$(ARCH)'']
   \<and> [''A'' \<mapsto> ''$(ARCH) $(CFLAGS_$(ARCH))''] ''ARCH'' = None
   \<and> [''A'' \<mapsto> ''$(ARCH) $(CFLAGS_$(ARCH))''] ''CFLAGS_$(ARCH)'' = None
   \<and> ResolveReferences [''A''] [''A'' \<mapsto> ''$(ARCH) $(CFLAGS_$(ARCH))''] ''A'' = Some ''$(CFLAGS_)''"
  by (simp add: ResolveReferences_def resolve_key_def resolve_value_def substitute_def
        rxCompilerVar_at_def rx_plus_def rx_nonspace_def rx_space_def lookup_def TrimSpace_def
        space_runes_def)

text \<open>
  C6, amended. In a value made of text without \<open>$\<close> and of separate references (no
  reference inside or directly against another, see \<open>separate\<close>), where every referenced key
  is absent or bound to a value without \<open>$\<close>, every reference is replaced by what the table
  stores for its key when the turn of the value comes, which is the empty string for an absent
  key; then the flag is removed and the value trimmed. So \<open>{A: "$(Z) tail"}\<close> without a key
  \<open>Z\<close> resolves \<open>A\<close> to \<open>tail\<close>, and the line \<open>LIBS = -lQt5Core $(EXTRA)\<close> without a key
  \<open>EXTRA\<close> gives \<open>LIBS\<close> the value \<open>-lQt5Core\<close>.
\<close>

theorem references_replaced:
  assumes "distinct ks" and "k \<in> set ks" and "m k = Some (flatten ps)" and "separate ps"
    and "\<forall>X \<in> set (refs ps). \<forall>w. m X = Some w \<longrightarrow> CHR ''$'' \<notin> set w"
  shows "ResolveReferences ks m k =
           Some (TrimSpace (Replace
             (expand (ResolveReferences (takeWhile (\<lambda>x. x \<noteq> k) ks) m) ps)
             '' -Wa,-mbig-obj '' '' ''))
         \<and> (\<forall>X. m X = None \<longrightarrow>
               lookup (ResolveReferences (takeWhile (\<lambda>x. x \<noteq> k) ks) m) X = [])"
proof -
  let ?M = "ResolveReferences (takeWhile (\<lambda>x. x \<noteq> k) ks) m"
  from assms(1) have d: "distinct (takeWhile (\<lambda>x. x \<noteq> k) ks)" by (rule distinct_takeWhile)
  have absent: "lookup ?M X = []" if "m X = None" for X
  proof -
    from that have "X \<notin> dom ?M" by (simp add: dom_ResolveReferences domIff)
    then show ?thesis by (simp add: lookup_def domIff)
  qed
  have "\<forall>X \<in> set (refs ps). CHR ''$'' \<notin> set (lookup ?M X)"
  proof
    fix X assume X: "X \<in> set (refs ps)"
    show "CHR ''$'' \<notin> set (lookup ?M X)"
    proof (cases "m X")
      case None
      then show ?thesis by (simp add: absent)
    next
      case (Some w)
      with assms(5) X have "CHR ''$'' \<notin> set w" by blast
      from dollar_free_resolved [of "takeWhile (\<lambda>x. x \<noteq> k) ks" m X w, OF d Some this]
      show ?thesis .
    qed
  qed
  from substitute_flatten [OF assms(4) this]
  have "resolve_value ?M (flatten ps) = TrimSpace (Replace (expand ?M ps) '' -Wa,-mbig-obj '' '' '')"
    by (simp add: resolve_value_def)
  with ResolveReferences_at [of ks k m "flatten ps", OF assms(1-3)] absent show ?thesis by simp
qed

theorem references_replaced_witness:
  "ResolveReferences [''A''] [''A'' \<mapsto> ''$(Z) tail''] ''A'' = Some ''tail''
   \<and> ResolveReferences [''CFLAGS'', ''CXXFLAGS'', ''INCPATH'', ''LFLAGS'', ''LIBS'']
        (ParseSymbols [''CFLAGS = -O2'', ''CXXFLAGS = -std=c++11'', ''INCPATH = -I/usr/include/qt'',
                       ''LFLAGS = -L/usr/lib'', ''LIBS = -lQt5Core $(EXTRA)'']) ''LIBS''
        = Some ''-lQt5Core''
   \<and> directives (ResolveReferences [''CFLAGS'', ''CXXFLAGS'', ''INCPATH'', ''LFLAGS'', ''LIBS'']
        (ParseSymbols [''CFLAGS = -O2'', ''CXXFLAGS = -std=c++11'', ''INCPATH = -I/usr/include/qt'',
                       ''LFLAGS = -L/usr/lib'', ''LIBS = -lQt5Core $(EXTRA)''])) ! 4
        = ''#cgo LDFLAGS: -lQt5Core''"
proof -
  have P: "ParseSymbols [''CFLAGS = -O2'', ''CXXFLAGS = -std=c++11'', ''INCPATH = -I/usr/include/qt'',
                       ''LFLAGS = -L/usr/lib'', ''LIBS = -lQt5Core $(EXTRA)'']
    = [''CFLAGS'' \<mapsto> ''-O2'', ''CXXFLAGS'' \<mapsto> ''-std=c++11'', ''INCPATH'' \<mapsto> ''-I/usr/include/qt'',
       ''LFLAGS'' \<mapsto> ''-L/usr/lib'', ''LIBS'' \<mapsto> ''-lQt5Core $(EXTRA)'']"
    by (simp add: ParseSymbols_def parse_line_eq rxMakefile_def rx_plus_def rx_nonspace_def
        rx_space_def rx_dot_def)
  have 1: "ResolveReferences [''A''] [''A'' \<mapsto> ''$(Z) tail''] ''A'' = Some ''tail''"
    using references_replaced [of "[''A'']" "''A''" "[''A'' \<mapsto> ''$(Z) tail'']" "[Ref ''Z'', Text '' tail'']"]
    by (simp add: rx_nonspace_def rx_space_def ResolveReferences_def lookup_def TrimSpace_def space_runes_def)
  have 2: "ResolveReferences [''CFLAGS'', ''CXXFLAGS'', ''INCPATH'', ''LFLAGS'', ''LIBS'']
        [''CFLAGS'' \<mapsto> ''-O2'', ''CXXFLAGS'' \<mapsto> ''-std=c++11'', ''INCPATH'' \<mapsto> ''-I/usr/include/qt'',
       ''LFLAGS'' \<mapsto> ''-L/usr/lib'', ''LIBS'' \<mapsto> ''-lQt5Core $(EXTRA)''] ''LIBS''
        = Some ''-lQt5Core''"
    using references_replaced [of "[''CFLAGS'', ''CXXFLAGS'', ''INCPATH'', ''LFLAGS'', ''LIBS'']" "''LIBS''"
        "[''CFLAGS'' \<mapsto> ''-O2'', ''CXXFLAGS'' \<mapsto> ''-std=c++11'', ''INCPATH'' \<mapsto> ''-I/usr/include/qt'',
       ''LFLAGS'' \<mapsto> ''-L/usr/lib'', ''LIBS'' \<mapsto> ''-lQt5Core $(EXTRA)'']" "[Text ''-lQt5Core '', Ref ''EXTRA'']",
        THEN conjunct1]
      references_replaced [of "[''CFLAGS'', ''CXXFLAGS'', ''INCPATH'', ''LFLAGS'', ''LIBS'']" "''LIBS''"
        "[''CFLAGS'' \<mapsto> ''-O2'', ''CXXFLAGS'' \<mapsto> ''-std=c++11'', ''INCPATH'' \<mapsto> ''-I/usr/include/qt'',
       ''LFLAGS'' \<mapsto> ''-L/usr/lib'', ''LIBS'' \<mapsto> ''-lQt5Core $(EXTRA)'']" "[Text ''-lQt5Core '', Ref ''EXTRA'']",
        THEN conjunct2, THEN spec, of "''EXTRA''"]
    by (simp add: rx_nonspace_def rx_space_def TrimSpace_def space_runes_def)
  from 1 2 show ?thesis unfolding P by (simp add: directives_def lookup_def)
qed

end
